theory Spec2Isabelle
  imports Complex_Main
begin

section \<open>Go values used by vidagent\<close>

text \<open>
  The program is \<^verbatim>\<open>cmd/vidagent/main.go\<close>. Its pipeline is
  \<^verbatim>\<open>getTokens\<close>, \<^verbatim>\<open>getActions\<close>, \<^verbatim>\<open>validateSegmentTimes\<close>,
  \<^verbatim>\<open>buildComplexFilter\<close>. A Go string is modelled as a list of code points
  (\<open>string\<close>), restricted to the code points below 256; a Go \<^verbatim>\<open>int\<close> is an \<open>int\<close>
  with the 64-bit wrap-around written out where the code does arithmetic on it.
\<close>

subsection \<open>float64\<close>

text \<open>
  A \<^verbatim>\<open>float64\<close> is a finite rational, negative zero, an infinity or NaN. Arithmetic
  computes the exact rational result and rounds it to the nearest binary64 value, ties to
  even, as IEEE 754 does (\<open>round64\<close>).
\<close>

datatype float64 = Finite rat | NegZero | PosInf | NegInf | NaN

definition pow2 :: "int \<Rightarrow> rat" where
  "pow2 k = (if 0 \<le> k then 2 ^ nat k else 1 / 2 ^ nat (- k))"

function bitlen :: "int \<Rightarrow> int" where
  \<comment> \<open>the number of binary digits of a positive integer\<close>
  "bitlen n = (if n \<le> 0 then 0 else 1 + bitlen (n div 2))"
  by pat_completeness auto
termination
  by (relation "measure nat") auto

declare bitlen.simps [simp del]

definition ilog2 :: "rat \<Rightarrow> int" where
  \<comment> \<open>the binary exponent of a positive rational: \<open>pow2 (ilog2 x) \<le> x < pow2 (ilog2 x + 1)\<close>\<close>
  "ilog2 x = (if 1 \<le> x then bitlen \<lfloor>x\<rfloor> - 1 else - bitlen (\<lceil>1 / x\<rceil> - 1))"

definition roundEven :: "rat \<Rightarrow> int" where
  "roundEven y =
     (let f = \<lfloor>y\<rfloor>; d = y - of_int f
      in if d < 1 / 2 then f else if 1 / 2 < d then f + 1 else if even f then f else f + 1)"

definition roundMag :: "nat \<Rightarrow> int \<Rightarrow> rat \<Rightarrow> rat" where
  \<comment> \<open>a positive value rounded to a multiple of the quantum of its binade: \<open>p\<close> bits of
      mantissa, exponents not below \<open>emin\<close>\<close>
  "roundMag p emin a =
     (let e = max (ilog2 a) emin;
          q = pow2 (e - int p + 1)
      in of_int (roundEven (a / q)) * q)"

definition roundTo :: "nat \<Rightarrow> int \<Rightarrow> int \<Rightarrow> rat \<Rightarrow> float64" where
  \<comment> \<open>round to nearest, ties to even; beyond the largest exponent \<open>emax\<close> an infinity\<close>
  "roundTo p emin emax x =
     (if x = 0 then Finite 0
      else
        let m = roundMag p emin \<bar>x\<bar>
        in if m = 0 then (if x < 0 then NegZero else Finite 0)
           else if emax < ilog2 m then (if x < 0 then NegInf else PosInf)
           else Finite (if x < 0 then - m else m))"

definition round64 :: "rat \<Rightarrow> float64" where
  "round64 = roundTo 53 (- 1022) 1023"

definition round32 :: "rat \<Rightarrow> float64" where
  "round32 = roundTo 24 (- 126) 127"

fun fin :: "float64 \<Rightarrow> rat" where
  "fin (Finite r) = r"
| "fin _ = 0"

fun isFinite :: "float64 \<Rightarrow> bool" where
  "isFinite (Finite r) = True"
| "isFinite NegZero = True"
| "isFinite _ = False"

fun fneg :: "float64 \<Rightarrow> float64" where
  "fneg (Finite r) = (if r = 0 then NegZero else Finite (- r))"
| "fneg NegZero = Finite 0"
| "fneg PosInf = NegInf"
| "fneg NegInf = PosInf"
| "fneg NaN = NaN"

fun fadd :: "float64 \<Rightarrow> float64 \<Rightarrow> float64" where
  "fadd NaN b = NaN"
| "fadd a NaN = NaN"
| "fadd PosInf NegInf = NaN"
| "fadd NegInf PosInf = NaN"
| "fadd PosInf b = PosInf"
| "fadd a PosInf = PosInf"
| "fadd NegInf b = NegInf"
| "fadd a NegInf = NegInf"
| "fadd NegZero NegZero = NegZero"
| "fadd a b = (let r = fin a + fin b in if r = 0 then Finite 0 else round64 r)"

definition fsub :: "float64 \<Rightarrow> float64 \<Rightarrow> float64" where
  "fsub a b = fadd a (fneg b)"

fun flt :: "float64 \<Rightarrow> float64 \<Rightarrow> bool" where
  \<comment> \<open>Go's \<^verbatim>\<open><\<close> on float64: false whenever an operand is NaN\<close>
  "flt NaN b = False"
| "flt a NaN = False"
| "flt a NegInf = False"
| "flt PosInf b = False"
| "flt NegInf b = True"
| "flt a PosInf = True"
| "flt a b = (fin a < fin b)"

definition float64_of_int :: "int \<Rightarrow> float64" where
  \<comment> \<open>the conversion \<^verbatim>\<open>float64(n)\<close>\<close>
  "float64_of_int n = round64 (of_int n)"

definition wrap64 :: "int \<Rightarrow> int" where
  \<comment> \<open>the value a 64-bit two's complement \<^verbatim>\<open>int\<close> holds after an arithmetic result \<open>n\<close>\<close>
  "wrap64 n = (n + 2 ^ 63) mod 2 ^ 64 - 2 ^ 63"

subsection \<open>Formatting: \<^verbatim>\<open>%d\<close>, \<^verbatim>\<open>%.2f\<close>, \<^verbatim>\<open>%2.2f\<close>\<close>

definition digit :: "nat \<Rightarrow> char" where
  "digit n = ''0123456789'' ! n"

fun dec :: "nat \<Rightarrow> string" where
  "dec n = (if n < 10 then [digit n] else dec (n div 10) @ [digit (n mod 10)])"

declare dec.simps [simp del]

definition itoa :: "int \<Rightarrow> string" where
  \<comment> \<open>\<^verbatim>\<open>%d\<close>\<close>
  "itoa i = (if i < 0 then CHR ''-'' # dec (nat (- i)) else dec (nat i))"

definition fixed2 :: "rat \<Rightarrow> string" where
  \<comment> \<open>a non-negative value with two decimals, correctly rounded (ties to even)\<close>
  "fixed2 a =
     (let n = nat (roundEven (a * 100))
      in dec (n div 100) @ ''.'' @ [digit (n mod 100 div 10), digit (n mod 10)])"

fun formatFloat2 :: "float64 \<Rightarrow> string" where
  \<comment> \<open>\<^verbatim>\<open>%.2f\<close>\<close>
  "formatFloat2 NaN = ''NaN''"
| "formatFloat2 PosInf = ''+Inf''"
| "formatFloat2 NegInf = ''-Inf''"
| "formatFloat2 NegZero = ''-0.00''"
| "formatFloat2 (Finite r) = (if r < 0 then CHR ''-'' # fixed2 (- r) else fixed2 r)"

definition padLeft :: "nat \<Rightarrow> string \<Rightarrow> string" where
  \<comment> \<open>a minimum field width: spaces on the left\<close>
  "padLeft w s = replicate (w - length s) CHR '' '' @ s"

subsection \<open>The \<^verbatim>\<open>strings\<close> and \<^verbatim>\<open>unicode\<close> functions\<close>

definition isSpace :: "char \<Rightarrow> bool" where
  \<comment> \<open>\<^verbatim>\<open>unicode.IsSpace\<close> on Latin-1: tab, LF, VT, FF, CR, space, U+0085, U+00A0\<close>
  "isSpace c = ((of_char c :: nat) \<in> {9, 10, 11, 12, 13, 32, 133, 160})"

definition TrimSpace :: "string \<Rightarrow> string" where
  "TrimSpace s = rev (dropWhile isSpace (rev (dropWhile isSpace s)))"

fun Split :: "char \<Rightarrow> string \<Rightarrow> string list" where
  \<comment> \<open>\<^verbatim>\<open>strings.Split\<close> with a one-character separator\<close>
  "Split sep [] = [[]]"
| "Split sep (c # cs) =
     (if c = sep then [] # Split sep cs
      else (case Split sep cs of p # ps \<Rightarrow> (c # p) # ps | [] \<Rightarrow> [[c]]))"

definition toLowerChar :: "char \<Rightarrow> char" where
  "toLowerChar c =
     (let n = (of_char c :: nat)
      in if (65 \<le> n \<and> n \<le> 90) \<or> (192 \<le> n \<and> n \<le> 222 \<and> n \<noteq> 215)
         then char_of (n + 32) else c)"

definition ToLower :: "string \<Rightarrow> string" where
  "ToLower s = map toLowerChar s"

datatype numError = ErrSyntax | ErrRange

definition digitVal :: "char \<Rightarrow> nat option" where
  "digitVal c =
     (let n = (of_char c :: nat) in if 48 \<le> n \<and> n \<le> 57 then Some (n - 48) else None)"

fun digitsVal :: "nat \<Rightarrow> string \<Rightarrow> nat option" where
  "digitsVal acc [] = Some acc"
| "digitsVal acc (c # cs) =
     (case digitVal c of None \<Rightarrow> None | Some d \<Rightarrow> digitsVal (acc * 10 + d) cs)"

definition Atoi :: "string \<Rightarrow> numError + int" where
  \<comment> \<open>\<^verbatim>\<open>strconv.Atoi\<close> for a 64-bit \<^verbatim>\<open>int\<close>: an optional sign, decimal digits, the range checked\<close>
  "Atoi s =
     (let neg = (s \<noteq> [] \<and> hd s = CHR ''-'');
          ds = (if s \<noteq> [] \<and> (hd s = CHR ''+'' \<or> hd s = CHR ''-'') then tl s else s)
      in if ds = [] then Inl ErrSyntax
         else (case digitsVal 0 ds of
                 None \<Rightarrow> Inl ErrSyntax
               | Some n \<Rightarrow>
                   (let v = (if neg then - int n else int n)
                    in if v < - (2 ^ 63) \<or> 2 ^ 63 - 1 < v then Inl ErrRange else Inr v)))"

section \<open>Data model\<close>

record token =
  val :: string
  linePos :: int
  charPos :: int

record Time =
  Hour :: int
  Minute :: int
  Second :: float64

record Reason =
  Category :: string
  Specifier :: string

type_synonym Verb = string

definition CutVerb :: Verb where
  "CutVerb = ''cut''"

definition MuteVerb :: Verb where
  "MuteVerb = ''mute''"

text \<open>The field \<^verbatim>\<open>end\<close> of an action is \<open>endT\<close> here (\<open>end\<close> is a keyword).\<close>

record action =
  tokens :: "token list"
  verb :: Verb
  start :: Time
  endT :: Time
  reason :: Reason

definition zeroTime :: Time where
  "zeroTime = \<lparr>Hour = 0, Minute = 0, Second = Finite 0\<rparr>"

definition zeroReason :: Reason where
  "zeroReason = \<lparr>Category = [], Specifier = []\<rparr>"

definition zeroAction :: action where
  \<comment> \<open>\<^verbatim>\<open>action{}\<close>\<close>
  "zeroAction = \<lparr>tokens = [], verb = [], start = zeroTime, endT = zeroTime, reason = zeroReason\<rparr>"

definition verbs :: "string \<Rightarrow> Verb option" where
  \<comment> \<open>the map \<^verbatim>\<open>verbs\<close>\<close>
  "verbs = [''cut'' \<mapsto> CutVerb, ''mute'' \<mapsto> MuteVerb]"

datatype timeError =
    BadMinute string numError
  | BadHour string numError
  | BadSecond string numError
  | BadTimeFormat string

datatype reasonError = BadReasonFormat string

datatype error =
    UnrecognizedVerb int int string
  | InvalidStartTime timeError
  | InvalidEndTime timeError
  | InvalidReason reasonError
  | UnexpectedTokenCount int nat
  | NoTokens nat
  | OutOfOrderWithinAction int Time Time
  | SegmentTooShort int Time Time
  | OutOfOrderAcrossActions int int
  | OverlapOrAdjacent int int
  | EmptyActionList
  | UnsupportedVerb nat Verb

section \<open>Time and Reason\<close>

definition SecondNum :: "Time \<Rightarrow> float64" where
  "SecondNum t = fadd (float64_of_int (wrap64 (Hour t * 60 * 60 + Minute t * 60))) (Second t)"

definition SecondString :: "Time \<Rightarrow> string" where
  "SecondString t = formatFloat2 (SecondNum t)"

definition String :: "Time \<Rightarrow> string" where
  \<comment> \<open>\<^verbatim>\<open>Time.String\<close>: \<^verbatim>\<open>%d:%d:%2.2f\<close> when the hour is positive, \<^verbatim>\<open>%d:%2.2f\<close> otherwise\<close>
  "String t =
     (if 0 < Hour t
      then itoa (Hour t) @ '':'' @ itoa (Minute t) @ '':'' @ padLeft 2 (formatFloat2 (Second t))
      else itoa (Minute t) @ '':'' @ padLeft 2 (formatFloat2 (Second t)))"

text \<open>
  \<^verbatim>\<open>strconv.ParseFloat(s, 32)\<close> belongs to Go's library, not to the program: \<open>ParseTime\<close>
  takes it as the parameter \<open>pf\<close>. It returns an error or the \<^verbatim>\<open>float64\<close> holding the
  nearest 32-bit value.
\<close>

definition ParseTime :: "(string \<Rightarrow> numError + float64) \<Rightarrow> string \<Rightarrow> timeError + Time" where
  "ParseTime pf timeStr0 =
     (let timeStr = TrimSpace timeStr0
      in if timeStr = [] then Inr zeroTime
         else
           (case map (\<lambda>p. if p = [] then ''00'' else p) (Split CHR '':'' timeStr) of
              [s] \<Rightarrow>
                (case pf s of
                   Inl e \<Rightarrow> Inl (BadSecond s e)
                 | Inr sec \<Rightarrow> Inr \<lparr>Hour = 0, Minute = 0, Second = sec\<rparr>)
            | [m, s] \<Rightarrow>
                (case Atoi m of
                   Inl e \<Rightarrow> Inl (BadMinute m e)
                 | Inr minute \<Rightarrow>
                     (case pf s of
                        Inl e \<Rightarrow> Inl (BadSecond s e)
                      | Inr sec \<Rightarrow> Inr \<lparr>Hour = 0, Minute = minute, Second = sec\<rparr>))
            | [h, m, s] \<Rightarrow>
                (case Atoi h of
                   Inl e \<Rightarrow> Inl (BadHour h e)
                 | Inr hour \<Rightarrow>
                     (case Atoi m of
                        Inl e \<Rightarrow> Inl (BadMinute m e)
                      | Inr minute \<Rightarrow>
                          (case pf s of
                             Inl e \<Rightarrow> Inl (BadSecond s e)
                           | Inr sec \<Rightarrow> Inr \<lparr>Hour = hour, Minute = minute, Second = sec\<rparr>)))
            | _ \<Rightarrow> Inl (BadTimeFormat timeStr)))"

definition ParseReason :: "string \<Rightarrow> reasonError + Reason" where
  "ParseReason reasonStr0 =
     (let reasonStr = TrimSpace reasonStr0
      in if reasonStr = [] then Inr zeroReason
         else
           (case Split CHR '':'' reasonStr of
              [c] \<Rightarrow> Inr \<lparr>Category = TrimSpace c, Specifier = []\<rparr>
            | [c, sp] \<Rightarrow> Inr \<lparr>Category = TrimSpace c, Specifier = TrimSpace sp\<rparr>
            | _ \<Rightarrow> Inl (BadReasonFormat reasonStr)))"

section \<open>The lexer: \<^verbatim>\<open>getTokens\<close>\<close>

text \<open>
  The input is the list of lines the scanner yields. The variable \<^verbatim>\<open>field\<close> only ever
  holds one of four string literals, so it is a four-valued datatype and the
  \<^verbatim>\<open>default\<close> arm of the switch has no counterpart. The loop variables are the record
  \<open>lexer\<close>: the token list built so far, the pending token and the field.
\<close>

datatype field = VerbField | StartField | EndField | ReasonField

record lexer =
  emitted :: "token list"
  tkn :: token
  field :: field

datatype flow = Continue lexer | NextLine lexer

definition newTkn :: "int \<Rightarrow> token" where
  \<comment> \<open>\<^verbatim>\<open>token{linePos: lineNum, charPos: -1}\<close>\<close>
  "newTkn lineNum = \<lparr>val = [], linePos = lineNum, charPos = - 1\<rparr>"

definition saveTkn :: "int \<Rightarrow> lexer \<Rightarrow> lexer" where
  "saveTkn lineNum st =
     st\<lparr>emitted := emitted st @ [(tkn st)\<lparr>val := TrimSpace (val (tkn st))\<rparr>],
        tkn := newTkn lineNum\<rparr>"

definition accumulate :: "nat \<Rightarrow> char \<Rightarrow> lexer \<Rightarrow> lexer" where
  \<comment> \<open>the tail of the loop body: skip leading space, record the column, append the character\<close>
  "accumulate charNum ch st =
     (if val (tkn st) = [] \<and> isSpace ch then st
      else st\<lparr>tkn := (tkn st)
             \<lparr>charPos := (if charPos (tkn st) = - 1 then int charNum + 1 else charPos (tkn st)),
              val := val (tkn st) @ [ch]\<rparr>\<rparr>)"

definition scanChar :: "int \<Rightarrow> nat \<Rightarrow> char \<Rightarrow> lexer \<Rightarrow> flow" where
  \<comment> \<open>one iteration of the loop over the characters of a line\<close>
  "scanChar lineNum charNum ch st =
     (if ch = CHR ''#'' then NextLine st
      else
        (case field st of
           VerbField \<Rightarrow>
             if isSpace ch \<and> val (tkn st) \<noteq> []
             then Continue ((saveTkn lineNum st)\<lparr>field := StartField\<rparr>)
             else Continue (accumulate charNum ch st)
         | StartField \<Rightarrow>
             if ch = CHR ''-'' \<and> val (tkn st) \<noteq> []
             then Continue ((saveTkn lineNum st)\<lparr>field := EndField\<rparr>)
             else Continue (accumulate charNum ch st)
         | EndField \<Rightarrow>
             if ch = CHR ''('' \<and> val (tkn st) \<noteq> []
             then Continue ((saveTkn lineNum st)\<lparr>field := ReasonField\<rparr>)
             else Continue (accumulate charNum ch st)
         | ReasonField \<Rightarrow>
             if ch = CHR '')'' then NextLine (saveTkn lineNum st)
             else Continue (accumulate charNum ch st)))"

fun scanChars :: "int \<Rightarrow> nat \<Rightarrow> string \<Rightarrow> lexer \<Rightarrow> flow" where
  \<comment> \<open>the loop over the characters, from index \<open>charNum\<close>\<close>
  "scanChars lineNum charNum [] st = Continue st"
| "scanChars lineNum charNum (ch # rest) st =
     (case scanChar lineNum charNum ch st of
        NextLine st' \<Rightarrow> NextLine st'
      | Continue st' \<Rightarrow> scanChars lineNum (Suc charNum) rest st')"

definition flush :: "lexer \<Rightarrow> lexer" where
  \<comment> \<open>after the loop: a non-empty pending token is trimmed and appended\<close>
  "flush st =
     (if val (tkn st) \<noteq> []
      then st\<lparr>emitted := emitted st @ [(tkn st)\<lparr>val := TrimSpace (val (tkn st))\<rparr>]\<rparr>
      else st)"

definition scanLine :: "int \<Rightarrow> nat \<Rightarrow> string \<Rightarrow> lexer \<Rightarrow> lexer" where
  "scanLine lineNum charNum line st =
     (case scanChars lineNum charNum line st of
        NextLine st' \<Rightarrow> st'
      | Continue st' \<Rightarrow> flush st')"

definition startLine :: "int \<Rightarrow> token list \<Rightarrow> lexer" where
  "startLine lineNum toks = \<lparr>emitted = toks, tkn = newTkn lineNum, field = VerbField\<rparr>"

fun scanLines :: "int \<Rightarrow> string list \<Rightarrow> token list \<Rightarrow> token list" where
  "scanLines lineNum [] toks = toks"
| "scanLines lineNum (line # rest) toks =
     scanLines (lineNum + 1) rest (emitted (scanLine lineNum 0 line (startLine lineNum toks)))"

definition getTokens :: "string list \<Rightarrow> token list" where
  "getTokens lines = scanLines 1 lines []"

section \<open>The action builder: \<^verbatim>\<open>getActions\<close>\<close>

record builder =
  actions :: "action list"
  line :: int
  act :: action

definition addToken :: "token \<Rightarrow> action \<Rightarrow> action" where
  "addToken t a = a\<lparr>tokens := tokens a @ [t]\<rparr>"

definition newLine :: "token \<Rightarrow> builder \<Rightarrow> builder" where
  \<comment> \<open>a token of a later line closes the current action\<close>
  "newLine t b =
     (if line b < linePos t
      then \<lparr>actions = (if tokens (act b) \<noteq> [] then actions b @ [act b] else actions b),
            line = linePos t, act = zeroAction\<rparr>
      else b)"

definition buildToken ::
  "(string \<Rightarrow> numError + float64) \<Rightarrow> token \<Rightarrow> builder \<Rightarrow> error + builder" where
  \<comment> \<open>one iteration of the loop over the tokens\<close>
  "buildToken pf t b0 =
     (let b = newLine t b0; n = length (tokens (act b))
      in if n = 0 then
           (case verbs (ToLower (val t)) of
              None \<Rightarrow> Inl (UnrecognizedVerb (linePos t) (charPos t) (val t))
            | Some v \<Rightarrow> Inr (b\<lparr>act := addToken t ((act b)\<lparr>verb := v\<rparr>)\<rparr>))
         else if n = 1 then
           (case ParseTime pf (val t) of
              Inl e \<Rightarrow> Inl (InvalidStartTime e)
            | Inr startTime \<Rightarrow> Inr (b\<lparr>act := addToken t ((act b)\<lparr>start := startTime\<rparr>)\<rparr>))
         else if n = 2 then
           (case ParseTime pf (val t) of
              Inl e \<Rightarrow> Inl (InvalidEndTime e)
            | Inr endTime \<Rightarrow> Inr (b\<lparr>act := addToken t ((act b)\<lparr>endT := endTime\<rparr>)\<rparr>))
         else if n = 3 then
           (case ParseReason (val t) of
              Inl e \<Rightarrow> Inl (InvalidReason e)
            | Inr rsn \<Rightarrow> Inr (b\<lparr>act := addToken t ((act b)\<lparr>reason := rsn\<rparr>)\<rparr>))
         else Inl (UnexpectedTokenCount (linePos t) n))"

fun buildTokens ::
  "(string \<Rightarrow> numError + float64) \<Rightarrow> token list \<Rightarrow> builder \<Rightarrow> error + builder" where
  "buildTokens pf [] b = Inr b"
| "buildTokens pf (t # ts) b =
     (case buildToken pf t b of Inl e \<Rightarrow> Inl e | Inr b' \<Rightarrow> buildTokens pf ts b')"

definition getActions ::
  "(string \<Rightarrow> numError + float64) \<Rightarrow> token list \<Rightarrow> error + action list" where
  "getActions pf toks =
     (case buildTokens pf toks \<lparr>actions = [], line = 1, act = zeroAction\<rparr> of
        Inl e \<Rightarrow> Inl e
      | Inr b \<Rightarrow> Inr (if tokens (act b) \<noteq> [] then actions b @ [act b] else actions b))"

section \<open>The segment validator: \<^verbatim>\<open>validateSegmentTimes\<close>\<close>

definition threshold :: float64 where
  \<comment> \<open>the constant \<^verbatim>\<open>.001\<close>\<close>
  "threshold = round64 (1 / 1000)"

definition firstLine :: "action \<Rightarrow> int" where
  \<comment> \<open>\<^verbatim>\<open>act.tokens[0].linePos\<close>; the code reads it only after \<^verbatim>\<open>len(act.tokens) == 0\<close> has failed\<close>
  "firstLine a = linePos (hd (tokens a))"

definition checkAction :: "action list \<Rightarrow> nat \<Rightarrow> error option" where
  \<comment> \<open>the loop body at index \<open>i\<close>: the error it returns, if any\<close>
  "checkAction acts i =
     (let a = acts ! i
      in if tokens a = [] then Some (NoTokens i)
         else if flt (SecondNum (endT a)) (SecondNum (start a))
           then Some (OutOfOrderWithinAction (firstLine a) (endT a) (start a))
         else if flt (fsub (SecondNum (endT a)) (SecondNum (start a))) threshold
           then Some (SegmentTooShort (firstLine a) (endT a) (start a))
         else if 0 < i then
           (if flt (SecondNum (endT (acts ! i))) (SecondNum (start (acts ! (i - 1))))
              then Some (OutOfOrderAcrossActions (firstLine (acts ! (i - 1))) (firstLine a))
            else if flt (fsub (SecondNum (start (acts ! i))) (SecondNum (endT (acts ! (i - 1)))))
                      threshold
              then Some (OverlapOrAdjacent (firstLine (acts ! (i - 1))) (firstLine a))
            else None)
         else None)"

fun checkActions :: "action list \<Rightarrow> nat list \<Rightarrow> error option" where
  \<comment> \<open>the loop over the given indices: the first error stops it\<close>
  "checkActions acts [] = None"
| "checkActions acts (i # is) =
     (case checkAction acts i of Some e \<Rightarrow> Some e | None \<Rightarrow> checkActions acts is)"

definition validateSegmentTimes :: "action list \<Rightarrow> error option" where
  "validateSegmentTimes acts = checkActions acts [0..<length acts]"

section \<open>The graph compiler: \<^verbatim>\<open>buildComplexFilter\<close>\<close>

text \<open>
  Every \<^verbatim>\<open>s += fmt.Sprintf(...)\<close> of the code appends one \<open>stmt\<close>: the value keeps the
  arguments of the call, \<open>render\<close> is the formatted text. The labels are kept as the counter
  values they are printed from.
\<close>

datatype stmt =
    Head string int
  | Trim string string int
  | MuteTrim string string int
  | Concat int int int
  | Tail string int
  | FinalConcat int int

definition vidSegment :: "int \<Rightarrow> string" where
  "vidSegment n = ''video'' @ itoa n"

definition audSegment :: "int \<Rightarrow> string" where
  "audSegment n = ''audio'' @ itoa n"

fun render :: "stmt \<Rightarrow> string" where
  "render (Head d n) =
     ''[0:v]trim=duration='' @ d @ ''['' @ vidSegment n @ ''];[0:a]atrim=duration='' @ d @
     ''['' @ audSegment n @ ''];''"
| "render (Trim a b n) =
     ''[0:v]trim=start='' @ a @ '':end='' @ b @ '',setpts=PTS-STARTPTS['' @ vidSegment n @
     ''];[0:a]atrim=start='' @ a @ '':end='' @ b @ '',asetpts=PTS-STARTPTS['' @ audSegment n @
     ''];''"
| "render (MuteTrim a b n) =
     ''[0:v]trim=start='' @ a @ '':end='' @ b @ '',setpts=PTS-STARTPTS['' @ vidSegment n @
     ''];[1:a]atrim=start='' @ a @ '':end='' @ b @ '',asetpts=PTS-STARTPTS['' @ audSegment n @
     ''];''"
| "render (Concat a b n) =
     ''['' @ vidSegment a @ '']['' @ vidSegment b @ '']concat['' @ vidSegment n @ ''];['' @
     audSegment a @ '']['' @ audSegment b @ '']concat=v=0:a=1['' @ audSegment n @ ''];''"
| "render (Tail a n) =
     ''[0:v]trim=start='' @ a @ '',setpts=PTS-STARTPTS['' @ vidSegment n @
     ''];[0:a]atrim=start='' @ a @ '',asetpts=PTS-STARTPTS['' @ audSegment n @ ''];''"
| "render (FinalConcat a b) =
     ''['' @ vidSegment a @ '']['' @ vidSegment b @ '']concat[outv];['' @
     audSegment a @ '']['' @ audSegment b @ '']concat=v=0:a=1[outa]''"

record compiler =
  s :: "stmt list"
  segmentCounter :: int

definition incr :: "compiler \<Rightarrow> compiler" where
  \<comment> \<open>\<^verbatim>\<open>segmentCounter++\<close>\<close>
  "incr c = c\<lparr>segmentCounter := segmentCounter c + 1\<rparr>"

definition emit :: "stmt \<Rightarrow> compiler \<Rightarrow> compiler" where
  "emit x c = c\<lparr>s := s c @ [x]\<rparr>"

definition segmentAndConcat :: "(int \<Rightarrow> stmt) \<Rightarrow> compiler \<Rightarrow> compiler" where
  \<comment> \<open>the block the code repeats three times: count, emit a segment, count, emit the
      concatenation of the labels at \<^verbatim>\<open>segmentCounter-2\<close> and \<^verbatim>\<open>segmentCounter-1\<close>\<close>
  "segmentAndConcat seg c =
     (let c1 = incr c;
          c2 = emit (seg (segmentCounter c1)) c1;
          c3 = incr c2
      in emit (Concat (segmentCounter c3 + (- 2)) (segmentCounter c3 + (- 1)) (segmentCounter c3)) c3)"

definition compileAction :: "action list \<Rightarrow> nat \<Rightarrow> compiler \<Rightarrow> error + compiler" where
  \<comment> \<open>the loop body at index \<open>i\<close>\<close>
  "compileAction acts i c =
     (let a = acts ! i
      in if verb a = CutVerb then
           (let c1 = (if 0 < i
                      then segmentAndConcat
                             (Trim (SecondString (endT (acts ! (i - 1)))) (SecondString (start a))) c
                      else c)
            in Inr (if int i < int (length acts) - 1 \<and> verb (acts ! (i + 1)) \<noteq> CutVerb
                    then segmentAndConcat
                           (Trim (SecondString (endT a)) (SecondString (start (acts ! (i + 1))))) c1
                    else c1))
         else if verb a = MuteVerb then
           Inr (segmentAndConcat (MuteTrim (SecondString (start a)) (SecondString (endT a))) c)
         else Inl (UnsupportedVerb i (verb a)))"

fun compileActions :: "action list \<Rightarrow> nat list \<Rightarrow> compiler \<Rightarrow> error + compiler" where
  \<comment> \<open>the loop over the given indices: an error stops it\<close>
  "compileActions acts [] c = Inr c"
| "compileActions acts (i # is) c =
     (case compileAction acts i c of Inl e \<Rightarrow> Inl e | Inr c' \<Rightarrow> compileActions acts is c')"

definition beginning :: "action list \<Rightarrow> compiler" where
  \<comment> \<open>the state before the loop: the segment from 0 to the first action's start\<close>
  "beginning acts = \<lparr>s = [Head (SecondString (start (acts ! 0))) 0], segmentCounter = 0\<rparr>"

definition ending :: "action list \<Rightarrow> compiler \<Rightarrow> compiler" where
  \<comment> \<open>after the loop: the segment from the last action's end, and the final concatenation\<close>
  "ending acts c =
     (let lastAction = acts ! (length acts - 1);
          c1 = incr c;
          c2 = emit (Tail (SecondString (endT lastAction)) (segmentCounter c1)) c1
      in emit (FinalConcat (segmentCounter c2 + (- 1)) (segmentCounter c2)) c2)"

definition filterStatements :: "action list \<Rightarrow> error + stmt list" where
  \<comment> \<open>\<^verbatim>\<open>buildComplexFilter\<close> before formatting\<close>
  "filterStatements acts =
     (if acts = [] then Inl EmptyActionList
      else (case compileActions acts [0..<length acts] (beginning acts) of
              Inl e \<Rightarrow> Inl e
            | Inr c \<Rightarrow> Inr (s (ending acts c))))"

definition buildComplexFilter :: "action list \<Rightarrow> error + string" where
  "buildComplexFilter acts =
     (case filterStatements acts of Inl e \<Rightarrow> Inl e | Inr ss \<Rightarrow> Inr (concat (map render ss)))"

text \<open>
  The label a statement defines (the one in its trailing brackets), as the counter value it
  is printed from, and the labels as they are printed on the video and the audio path.
\<close>

datatype label = Seg int | Out

fun defined :: "stmt \<Rightarrow> label" where
  "defined (Head d n) = Seg n"
| "defined (Trim a b n) = Seg n"
| "defined (MuteTrim a b n) = Seg n"
| "defined (Concat a b n) = Seg n"
| "defined (Tail a n) = Seg n"
| "defined (FinalConcat a b) = Out"

fun vidLabel :: "label \<Rightarrow> string" where
  "vidLabel (Seg n) = vidSegment n"
| "vidLabel Out = ''outv''"

fun audLabel :: "label \<Rightarrow> string" where
  "audLabel (Seg n) = audSegment n"
| "audLabel Out = ''outa''"

text \<open>
  The invariant of the compiler's loop: the statement at position \<open>p\<close> defines the label
  \<open>p\<close>, a concatenation there reads the labels \<open>p - 2\<close> and \<open>p - 1\<close>, and the counter is
  the label of the last statement.
\<close>

definition labelled :: "stmt list \<Rightarrow> bool" where
  "labelled ss =
     ((\<forall>p<length ss. defined (ss ! p) = Seg (int p)) \<and>
      (\<forall>p<length ss. \<forall>a b n. ss ! p = Concat a b n \<longrightarrow> 2 \<le> p \<and> a = int p - 2 \<and> b = int p - 1))"

definition counted :: "compiler \<Rightarrow> bool" where
  "counted c = (s c \<noteq> [] \<and> segmentCounter c = int (length (s c)) - 1 \<and> labelled (s c))"

text \<open>
  The number of tokens the lexer has finalized on the current line when it is in a field.
\<close>

fun fieldIndex :: "field \<Rightarrow> nat" where
  "fieldIndex VerbField = 0"
| "fieldIndex StartField = 1"
| "fieldIndex EndField = 2"
| "fieldIndex ReasonField = 3"

section \<open>Example inputs\<close>

text \<open>
  An action as the builder makes it for a line \<open>l\<close> with the verb \<open>v\<close>, from second \<open>a\<close>
  to second \<open>b\<close>; used for the concrete inputs below.
\<close>

definition exampleAction :: "Verb \<Rightarrow> int \<Rightarrow> int \<Rightarrow> int \<Rightarrow> action" where
  "exampleAction v l a b =
     \<lparr>tokens = [\<lparr>val = v, linePos = l, charPos = 1\<rparr>], verb = v,
      start = \<lparr>Hour = 0, Minute = 0, Second = Finite (of_int a)\<rparr>,
      endT = \<lparr>Hour = 0, Minute = 0, Second = Finite (of_int b)\<rparr>, reason = zeroReason\<rparr>"

section \<open>Properties of the arithmetic\<close>

lemma bitlen_bounds:
  "0 < n \<Longrightarrow> 1 \<le> bitlen n \<and> 2 ^ nat (bitlen n - 1) \<le> n \<and> n < 2 ^ nat (bitlen n)"
proof (induction n rule: bitlen.induct)
  case (1 n)
  show ?case
  proof (cases "n = 1")
    case True
    then show ?thesis by (simp add: bitlen.simps [of 1] bitlen.simps [of 0])
  next
    case False
    with "1.prems" have pos: "0 < n div 2" by simp
    from "1.prems" have n: "\<not> n \<le> 0" by simp
    from "1.IH" [OF n pos] have k: "1 \<le> bitlen (n div 2)"
      and lo: "2 ^ nat (bitlen (n div 2) - 1) \<le> n div 2"
      and hi: "n div 2 < 2 ^ nat (bitlen (n div 2))" by simp_all
    have b: "bitlen n = 1 + bitlen (n div 2)"
      using n by (subst bitlen.simps) simp
    have p1: "(2::int) ^ nat (bitlen (n div 2)) = 2 * 2 ^ nat (bitlen (n div 2) - 1)"
      using k by (metis Suc_nat_eq_nat_zadd1 add.commute diff_add_cancel diff_ge_0_iff_ge power_Suc)
    have p2: "(2::int) ^ nat (1 + bitlen (n div 2)) = 2 * 2 ^ nat (bitlen (n div 2))"
      using k by (simp add: nat_add_distrib)
    have "2 * 2 ^ nat (bitlen (n div 2) - 1) \<le> n" using lo by linarith
    moreover have "n < 2 * 2 ^ nat (bitlen (n div 2))" using hi by linarith
    ultimately show ?thesis using k by (simp add: b p1 p2)
  qed
qed

lemma ilog2_of_int: "0 < n \<Longrightarrow> ilog2 (of_int n) = bitlen n - 1"
  by (simp add: ilog2_def)

lemma roundEven_of_int: "roundEven (of_int j) = j"
  by (simp add: roundEven_def)

lemma roundEven_nonneg: "0 \<le> y \<Longrightarrow> 0 \<le> roundEven y"
  by (auto simp: roundEven_def Let_def)

lemma pow2_pos: "0 < pow2 k"
  by (simp add: pow2_def)

lemma roundMag_exact:
  assumes a: "a = of_int j" and j: "0 < j" and k: "ilog2 a = k - 1" "k \<le> int p" "emin < k"
  shows "roundMag p emin a = a"
proof -
  have e: "max (ilog2 a) emin = k - 1" using k by simp
  have q: "pow2 (k - 1 - int p + 1) = 1 / 2 ^ nat (int p - k)"
    using k by (cases "k = int p") (simp_all add: pow2_def)
  have d: "a / (1 / 2 ^ nat (int p - k)) = of_int (j * 2 ^ nat (int p - k))"
    by (simp add: a)
  have m: "of_int (roundEven (a / (1 / 2 ^ nat (int p - k)))) * (1 / 2 ^ nat (int p - k)) = a"
    unfolding d roundEven_of_int by (simp add: a)
  show ?thesis
    unfolding roundMag_def Let_def e q m ..
qed

lemma round64_int:
  assumes "\<bar>n\<bar> < 2 ^ 53"
  shows "round64 (of_int n) = Finite (of_int n)"
proof (cases "n = 0")
  case True
  then show ?thesis by (simp add: round64_def roundTo_def)
next
  case False
  define k where "k = bitlen \<bar>n\<bar>"
  define a :: rat where "a = of_int \<bar>n\<bar>"
  from False have pos: "0 < \<bar>n\<bar>" by simp
  from bitlen_bounds [OF pos] have k1: "1 \<le> k" and lo: "2 ^ nat (k - 1) \<le> \<bar>n\<bar>"
    by (simp_all add: k_def)
  from lo assms have lt: "(2::int) ^ nat (k - 1) < 2 ^ 53" by linarith
  have "nat (k - 1) < 53" by (rule power_less_imp_less_exp [OF _ lt]) simp
  with k1 have k53: "k \<le> int 53" by linarith
  have l: "ilog2 a = k - 1"
    unfolding a_def k_def by (rule ilog2_of_int [OF pos])
  have abs: "\<bar>(of_int n :: rat)\<bar> = a" by (simp add: a_def)
  have sgn: "(if (of_int n :: rat) < 0 then - a else a) = of_int n" by (simp add: a_def)
  have m: "roundMag 53 (- 1022) a = a"
    using k1 by (intro roundMag_exact [OF a_def pos l k53]) simp
  have nz: "a \<noteq> 0" using False by (simp add: a_def)
  have "roundTo 53 (- 1022) 1023 (of_int n) = Finite (if (of_int n :: rat) < 0 then - a else a)"
    unfolding roundTo_def abs Let_def m using False nz l k53 by simp
  then show ?thesis by (simp only: round64_def sgn)
qed

lemma round64_Ints: "r \<in> \<int> \<Longrightarrow> \<bar>r\<bar> < 2 ^ 53 \<Longrightarrow> round64 r = Finite r"
proof -
  assume "r \<in> \<int>" and b: "\<bar>r\<bar> < 2 ^ 53"
  then obtain n where r: "r = of_int n" by (auto elim: Ints_cases)
  from b have "\<bar>n\<bar> < 2 ^ 53" unfolding r
    by (metis of_int_abs of_int_less_iff of_int_numeral of_int_power)
  from round64_int [OF this] show ?thesis by (simp add: r)
qed

lemma roundMag_nonneg: "0 \<le> a \<Longrightarrow> 0 \<le> roundMag p emin a"
  by (simp add: roundMag_def Let_def roundEven_nonneg pow2_pos less_imp_le)

lemma round64_negative:
  assumes "x < 0" and "0 < t"
  shows "flt (round64 x) (Finite t)"
proof -
  have "0 \<le> roundMag 53 (- 1022) \<bar>x\<bar>" by (rule roundMag_nonneg) simp
  with assms show ?thesis
    by (auto simp: round64_def roundTo_def Let_def)
qed

lemma threshold_value: "threshold = Finite (1152921504606847 / 1152921504606846976)"
  unfolding threshold_def by code_simp

lemma threshold_pos: "\<exists>t. threshold = Finite t \<and> 0 < t"
  by (rule exI [of _ "1152921504606847 / 1152921504606846976"]) (simp add: threshold_value)

lemma fsub_finite:
  "isFinite a \<Longrightarrow> isFinite b \<Longrightarrow> fin a \<noteq> fin b \<Longrightarrow> fsub a b = round64 (fin a - fin b)"
  by (cases a; cases b) (simp_all add: fsub_def Let_def)

lemma flt_finite: "isFinite a \<Longrightarrow> isFinite b \<Longrightarrow> flt a b = (fin a < fin b)"
  by (cases a; cases b) simp_all

lemma fsub_less:
  assumes "flt a b"
  shows "flt (fsub a b) threshold"
proof -
  obtain t where t: "threshold = Finite t" "0 < t" using threshold_pos by blast
  show ?thesis
  proof (cases "isFinite a \<and> isFinite b")
    case True
    with assms have lt: "fin a < fin b" by (simp add: flt_finite)
    then have "fin a - fin b < 0" by simp
    from round64_negative [OF this t(2)] True lt show ?thesis
      by (simp add: fsub_finite t)
  next
    case False
    with assms show ?thesis
      unfolding t(1) by (cases a; cases b) (simp_all add: fsub_def)
  qed
qed

section \<open>Properties of the lexer\<close>

lemma scanChars_append:
  "scanChars l n (pre @ rest) st =
     (case scanChars l n pre st of
        NextLine st' \<Rightarrow> NextLine st'
      | Continue st' \<Rightarrow> scanChars l (n + length pre) rest st')"
  by (induction pre arbitrary: n st) (auto split: flow.splits)

lemma accumulate_emitted: "emitted (accumulate n ch st) = emitted st"
  by (simp add: accumulate_def)

lemma scanChar_emitted:
  "scanChar l n ch st = Continue st' \<or> scanChar l n ch st = NextLine st'
     \<Longrightarrow> \<exists>ks. emitted st' = emitted st @ ks"
  by (auto simp: scanChar_def saveTkn_def accumulate_emitted split: if_splits field.splits)

lemma scanChars_emitted:
  "scanChars l n cs st = Continue st' \<or> scanChars l n cs st = NextLine st'
     \<Longrightarrow> \<exists>ks. emitted st' = emitted st @ ks"
proof (induction cs arbitrary: n st)
  case Nil
  then show ?case by simp
next
  case (Cons c cs)
  show ?case
  proof (cases "scanChar l n c st")
    case (Continue u)
    with Cons.prems
    have "scanChars l (Suc n) cs u = Continue st' \<or> scanChars l (Suc n) cs u = NextLine st'"
      by simp
    from Cons.IH [OF this] obtain ks where "emitted st' = emitted u @ ks" ..
    moreover from Continue scanChar_emitted obtain js where "emitted u = emitted st @ js"
      by blast
    ultimately show ?thesis by simp
  next
    case (NextLine u)
    with Cons.prems have "u = st'" by simp
    with NextLine scanChar_emitted show ?thesis by blast
  qed
qed

lemmas lexer_eval =
  startLine_def scanChar_def accumulate_def saveTkn_def newTkn_def TrimSpace_def isSpace_def
  flush_def scanLine_def getTokens_def

text \<open>
  C6. In every state of the lexer, whatever the field, the character \<open>#\<close> ends the line at
  once (\<^verbatim>\<open>continue nextLine\<close>). So when the loop has reached the state \<open>st'\<close> after the
  characters \<open>pre\<close> and the next character is \<open>#\<close>, the line ends in \<open>st'\<close>: the rest of
  the line is not read, the pending token of \<open>st'\<close> is not appended (also when the field is
  \<open>ReasonField\<close>, an open reason), and the tokens finalized before, those of \<open>st\<close>
  included, are kept.
\<close>

theorem hash_abandons_line:
  "scanChar lineNum charNum CHR ''#'' st = NextLine st \<and>
   (scanChars lineNum charNum pre st = Continue st' \<longrightarrow>
      scanLine lineNum charNum (pre @ CHR ''#'' # rest) st = st' \<and>
      (\<exists>ks. emitted st' = emitted st @ ks))"
proof (intro conjI impI)
  show "scanChar lineNum charNum CHR ''#'' st = NextLine st"
    by (simp add: scanChar_def)
next
  assume pre: "scanChars lineNum charNum pre st = Continue st'"
  have "scanChars lineNum charNum (pre @ CHR ''#'' # rest) st = NextLine st'"
    by (simp add: scanChars_append pre scanChar_def)
  then show "scanLine lineNum charNum (pre @ CHR ''#'' # rest) st = st'"
    by (simp add: scanLine_def)
  from pre scanChars_emitted show "\<exists>ks. emitted st' = emitted st @ ks"
    by blast
qed

text \<open>
  The line \<^verbatim>\<open>cut 1:00-2:00 # trim intro\<close>: the lexer is in the end field with the pending
  token \<^verbatim>\<open>2:00\<close> when it meets \<open>#\<close>, and the line yields the two tokens finalized before.
\<close>

theorem hash_abandons_line_witness:
  "scanChars 1 0 ''cut 1:00-2:00 '' (startLine 1 []) =
     Continue \<lparr>emitted = [\<lparr>val = ''cut'', linePos = 1, charPos = 1\<rparr>,
                          \<lparr>val = ''1:00'', linePos = 1, charPos = 5\<rparr>],
               tkn = \<lparr>val = ''2:00 '', linePos = 1, charPos = 10\<rparr>, field = EndField\<rparr> \<and>
   emitted (scanLine 1 0 (''cut 1:00-2:00 '' @ CHR ''#'' # '' trim intro'') (startLine 1 [])) =
     [\<lparr>val = ''cut'', linePos = 1, charPos = 1\<rparr>, \<lparr>val = ''1:00'', linePos = 1, charPos = 5\<rparr>]"
proof -
  let ?st' = "\<lparr>emitted = [\<lparr>val = ''cut'', linePos = 1, charPos = 1\<rparr>,
                          \<lparr>val = ''1:00'', linePos = 1, charPos = 5\<rparr>],
               tkn = \<lparr>val = ''2:00 '', linePos = 1, charPos = 10\<rparr>, field = EndField\<rparr>"
  have h: "scanChars 1 0 ''cut 1:00-2:00 '' (startLine 1 []) = Continue ?st'"
    by (simp add: startLine_def scanChar_def accumulate_def saveTkn_def newTkn_def TrimSpace_def
        isSpace_def)
  from hash_abandons_line [of 1 0 "startLine 1 []" "''cut 1:00-2:00 ''" ?st' "'' trim intro''"] h
  have "scanLine 1 0 (''cut 1:00-2:00 '' @ CHR ''#'' # '' trim intro'') (startLine 1 []) = ?st'"
    by blast
  with h show ?thesis by simp
qed

section \<open>Properties of the validator\<close>

lemmas time_eval =
  SecondNum_def wrap64_def float64_of_int_def round64_Ints fsub_def threshold_value

lemma checkActions_append:
  "checkActions acts (xs @ ys) =
     (case checkActions acts xs of Some e \<Rightarrow> Some e | None \<Rightarrow> checkActions acts ys)"
  by (induction xs) (auto split: option.splits)

lemma checkActions_None:
  "(\<And>j. j \<in> set xs \<Longrightarrow> checkAction acts j = None) \<Longrightarrow> checkActions acts xs = None"
  by (induction xs) auto

lemma upt_split: "i < n \<Longrightarrow> [0..<n] = [0..<i] @ i # [Suc i..<n]"
proof -
  assume i: "i < n"
  then have "[0..<n] = [0..<i] @ [i..<n]"
    using upt_add_eq_append [of 0 i "n - i"] by simp
  with i show ?thesis by (simp add: upt_conv_Cons)
qed

lemma validate_first_error:
  assumes "i < length acts" and "\<forall>j<i. checkAction acts j = None" and "checkAction acts i = Some e"
  shows "validateSegmentTimes acts = Some e"
proof -
  from assms(1) have "[0..<length acts] = [0..<i] @ i # [Suc i..<length acts]"
    by (rule upt_split)
  moreover from assms(2) have "checkActions acts [0..<i] = None"
    by (intro checkActions_None) simp
  ultimately show ?thesis
    by (simp add: validateSegmentTimes_def checkActions_append assms(3))
qed

text \<open>
  C1, as the code has it. Let \<open>i > 0\<close> be the first index at which a check can fail: the
  actions before \<open>i\<close> pass every check and action \<open>i\<close> passes the checks within the action.
  The code compares the END of action \<open>i\<close> with the START of action \<open>i - 1\<close>: when action
  \<open>i\<close> ends before action \<open>i - 1\<close> starts, the validator fails with
  \<open>OutOfOrderAcrossActions\<close>, and this check comes before the minimum-gap check. Otherwise,
  when action \<open>i\<close> starts before action \<open>i - 1\<close> ends (an overlap), or the gap between them
  is below the threshold, it fails with \<open>OverlapOrAdjacent\<close>.
\<close>

theorem across_actions_order:
  assumes "0 < i" and "i < length acts"
    and "\<forall>j<i. checkAction acts j = None"
    and "tokens (acts ! i) \<noteq> []"
    and "\<not> flt (SecondNum (endT (acts ! i))) (SecondNum (start (acts ! i)))"
    and "\<not> flt (fsub (SecondNum (endT (acts ! i))) (SecondNum (start (acts ! i)))) threshold"
  shows "(flt (SecondNum (endT (acts ! i))) (SecondNum (start (acts ! (i - 1)))) \<longrightarrow>
            validateSegmentTimes acts =
              Some (OutOfOrderAcrossActions (firstLine (acts ! (i - 1))) (firstLine (acts ! i)))) \<and>
         (\<not> flt (SecondNum (endT (acts ! i))) (SecondNum (start (acts ! (i - 1)))) \<and>
          (flt (SecondNum (start (acts ! i))) (SecondNum (endT (acts ! (i - 1)))) \<or>
           flt (fsub (SecondNum (start (acts ! i))) (SecondNum (endT (acts ! (i - 1))))) threshold) \<longrightarrow>
            validateSegmentTimes acts =
              Some (OverlapOrAdjacent (firstLine (acts ! (i - 1))) (firstLine (acts ! i))))"
proof (intro conjI impI)
  assume "flt (SecondNum (endT (acts ! i))) (SecondNum (start (acts ! (i - 1))))"
  with assms(1,4,5,6)
  have "checkAction acts i =
          Some (OutOfOrderAcrossActions (firstLine (acts ! (i - 1))) (firstLine (acts ! i)))"
    by (simp add: checkAction_def Let_def)
  with assms(2,3) show "validateSegmentTimes acts =
      Some (OutOfOrderAcrossActions (firstLine (acts ! (i - 1))) (firstLine (acts ! i)))"
    by (rule validate_first_error)
next
  assume h: "\<not> flt (SecondNum (endT (acts ! i))) (SecondNum (start (acts ! (i - 1)))) \<and>
          (flt (SecondNum (start (acts ! i))) (SecondNum (endT (acts ! (i - 1)))) \<or>
           flt (fsub (SecondNum (start (acts ! i))) (SecondNum (endT (acts ! (i - 1))))) threshold)"
  then have "flt (fsub (SecondNum (start (acts ! i))) (SecondNum (endT (acts ! (i - 1))))) threshold"
    using fsub_less by blast
  with h assms(1,4,5,6)
  have "checkAction acts i =
          Some (OverlapOrAdjacent (firstLine (acts ! (i - 1))) (firstLine (acts ! i)))"
    by (simp add: checkAction_def Let_def)
  with assms(2,3) show "validateSegmentTimes acts =
      Some (OverlapOrAdjacent (firstLine (acts ! (i - 1))) (firstLine (acts ! i)))"
    by (rule validate_first_error)
qed

lemma ex_checkAction0: "checkAction [exampleAction CutVerb 1 10 20, x] 0 = None"
  by (simp add: checkAction_def exampleAction_def time_eval)

text \<open>
  Two inputs for it: a second cut (1 s to 5 s) that lies before the first (10 s to 20 s), and
  a second cut (19 s to 30 s) that overlaps the first.
\<close>

theorem across_actions_order_witness:
  "validateSegmentTimes [exampleAction CutVerb 1 10 20, exampleAction CutVerb 2 1 5] =
     Some (OutOfOrderAcrossActions 1 2) \<and>
   validateSegmentTimes [exampleAction CutVerb 1 10 20, exampleAction CutVerb 2 19 30] =
     Some (OverlapOrAdjacent 1 2)"
proof -
  let ?A = "[exampleAction CutVerb 1 10 20, exampleAction CutVerb 2 1 5]"
  let ?B = "[exampleAction CutVerb 1 10 20, exampleAction CutVerb 2 19 30]"
  have a: "\<forall>j<1. checkAction ?A j = None" "tokens (?A ! 1) \<noteq> []"
    "\<not> flt (SecondNum (endT (?A ! 1))) (SecondNum (start (?A ! 1)))"
    "\<not> flt (fsub (SecondNum (endT (?A ! 1))) (SecondNum (start (?A ! 1)))) threshold"
    "flt (SecondNum (endT (?A ! 1))) (SecondNum (start (?A ! (1 - 1))))"
    by (simp_all add: ex_checkAction0) (simp_all add: exampleAction_def time_eval)
  have b: "\<forall>j<1. checkAction ?B j = None" "tokens (?B ! 1) \<noteq> []"
    "\<not> flt (SecondNum (endT (?B ! 1))) (SecondNum (start (?B ! 1)))"
    "\<not> flt (fsub (SecondNum (endT (?B ! 1))) (SecondNum (start (?B ! 1)))) threshold"
    "\<not> flt (SecondNum (endT (?B ! 1))) (SecondNum (start (?B ! (1 - 1))))"
    "flt (SecondNum (start (?B ! 1))) (SecondNum (endT (?B ! (1 - 1))))"
    by (simp_all add: ex_checkAction0) (simp_all add: exampleAction_def time_eval)
  have l: "firstLine (?A ! (1 - 1)) = 1" "firstLine (?A ! 1) = 2"
    "firstLine (?B ! (1 - 1)) = 1" "firstLine (?B ! 1) = 2"
    by (simp_all add: firstLine_def exampleAction_def)
  from across_actions_order [of 1 ?A, OF _ _ a(1-4)] a(5)
  have "validateSegmentTimes ?A = Some (OutOfOrderAcrossActions 1 2)"
    unfolding l by simp
  moreover from across_actions_order [of 1 ?B, OF _ _ b(1-4)] b(5,6)
  have "validateSegmentTimes ?B = Some (OverlapOrAdjacent 1 2)"
    unfolding l by simp
  ultimately show ?thesis by simp
qed

text \<open>
  C1 as stated fails: \<^verbatim>\<open>cut 0:10-0:20\<close> followed by \<^verbatim>\<open>mute 0:15-0:18\<close>. The second
  action starts (15 s) before the first ends (20 s), every check within the actions passes,
  and the validator fails with \<open>OverlapOrAdjacent\<close>, not with \<open>OutOfOrderAcrossActions\<close>.
\<close>

theorem overlap_not_out_of_order:
  "flt (SecondNum (start (exampleAction MuteVerb 2 15 18)))
       (SecondNum (endT (exampleAction CutVerb 1 10 20))) \<and>
   checkAction [exampleAction CutVerb 1 10 20, exampleAction MuteVerb 2 15 18] 0 = None \<and>
   validateSegmentTimes [exampleAction CutVerb 1 10 20, exampleAction MuteVerb 2 15 18] =
     Some (OverlapOrAdjacent 1 2) \<and>
   validateSegmentTimes [exampleAction CutVerb 1 10 20, exampleAction MuteVerb 2 15 18] \<noteq>
     Some (OutOfOrderAcrossActions 1 2)"
  by (simp add: validateSegmentTimes_def checkAction_def exampleAction_def time_eval firstLine_def)

text \<open>
  C7. On the empty input every stage before the compiler succeeds: no lines give no tokens,
  no tokens give no actions, the validator reports no error on the empty action list; the
  compiler fails on it with \<open>EmptyActionList\<close>.
\<close>

theorem empty_list_stages:
  "getTokens [] = [] \<and> getActions pf [] = Inr [] \<and> validateSegmentTimes [] = None \<and>
   buildComplexFilter [] = Inl EmptyActionList"
  by (simp add: getTokens_def getActions_def zeroAction_def validateSegmentTimes_def
      buildComplexFilter_def filterStatements_def)

text \<open>
  C5. The line \<^verbatim>\<open>cut 1:32\<close>, when \<^verbatim>\<open>ParseFloat\<close> reads \<^verbatim>\<open>32\<close> as 32: the lexer
  gives the two tokens, the builder one action with the verb cut, the start at 92 seconds
  and the end left at the zero Time, and the validator fails with
  \<open>OutOfOrderWithinAction\<close>, the end (0) being before the start (92).
\<close>

theorem omitted_end_time:
  assumes "pf ''32'' = Inr (Finite 32)"
  shows "getTokens [''cut 1:32''] =
           [\<lparr>val = ''cut'', linePos = 1, charPos = 1\<rparr>, \<lparr>val = ''1:32'', linePos = 1, charPos = 5\<rparr>] \<and>
         (\<exists>a. getActions pf (getTokens [''cut 1:32'']) = Inr [a] \<and>
            verb a = CutVerb \<and> SecondNum (start a) = Finite 92 \<and>
            endT a = \<lparr>Hour = 0, Minute = 0, Second = Finite 0\<rparr> \<and> reason a = zeroReason \<and>
            flt (SecondNum (endT a)) (SecondNum (start a)) \<and>
            validateSegmentTimes [a] = Some (OutOfOrderWithinAction 1 (endT a) (start a)))"
proof -
  have t: "getTokens [''cut 1:32''] =
           [\<lparr>val = ''cut'', linePos = 1, charPos = 1\<rparr>, \<lparr>val = ''1:32'', linePos = 1, charPos = 5\<rparr>]"
    by (simp add: lexer_eval)
  have p: "ParseTime pf ''1:32'' = Inr \<lparr>Hour = 0, Minute = 1, Second = Finite 32\<rparr>"
    by (simp add: ParseTime_def TrimSpace_def isSpace_def Atoi_def digitVal_def assms)
  let ?a = "\<lparr>tokens = [\<lparr>val = ''cut'', linePos = 1, charPos = 1\<rparr>,
                      \<lparr>val = ''1:32'', linePos = 1, charPos = 5\<rparr>],
            verb = CutVerb, start = \<lparr>Hour = 0, Minute = 1, Second = Finite 32\<rparr>,
            endT = zeroTime, reason = zeroReason\<rparr>"
  have g: "getActions pf (getTokens [''cut 1:32'']) = Inr [?a]"
    unfolding t
    by (simp add: getActions_def buildToken_def newLine_def zeroAction_def verbs_def ToLower_def
        toLowerChar_def addToken_def p CutVerb_def)
  have v: "validateSegmentTimes [?a] = Some (OutOfOrderWithinAction 1 (endT ?a) (start ?a))"
    by (simp add: validateSegmentTimes_def checkAction_def zeroTime_def time_eval firstLine_def)
  have "SecondNum (start ?a) = Finite 92" "flt (SecondNum (endT ?a)) (SecondNum (start ?a))"
    by (simp_all add: zeroTime_def time_eval)
  with t g v show ?thesis by (simp add: zeroTime_def)
qed

theorem omitted_end_time_witness:
  "(\<exists>a. getActions (\<lambda>s. if s = ''32'' then Inr (Finite 32) else Inl ErrSyntax)
           (getTokens [''cut 1:32'']) = Inr [a] \<and>
        validateSegmentTimes [a] = Some (OutOfOrderWithinAction 1 (endT a) (start a)))"
  using omitted_end_time [of "\<lambda>s. if s = ''32'' then Inr (Finite 32) else Inl ErrSyntax"]
  by auto

section \<open>Properties of the compiler\<close>

lemma compileActions_append:
  "compileActions acts (xs @ ys) c =
     (case compileActions acts xs c of Inl e \<Rightarrow> Inl e | Inr c' \<Rightarrow> compileActions acts ys c')"
  by (induction xs arbitrary: c) (auto split: sum.splits)

lemma segmentAndConcat_eq:
  "segmentAndConcat seg c =
     \<lparr>s = s c @ [seg (segmentCounter c + 1),
                  Concat (segmentCounter c) (segmentCounter c + 1) (segmentCounter c + 2)],
      segmentCounter = segmentCounter c + 2\<rparr>"
  by (simp add: segmentAndConcat_def incr_def emit_def Let_def)

lemma labelled_snoc:
  assumes "labelled ss" and "defined x = Seg (int (length ss))"
    and "\<And>a b n. x = Concat a b n \<Longrightarrow> 2 \<le> length ss \<and> a = int (length ss) - 2 \<and> b = int (length ss) - 1"
  shows "labelled (ss @ [x])"
proof -
  have d: "defined ((ss @ [x]) ! p) = Seg (int p)" if "p < length (ss @ [x])" for p
  proof -
    from that consider "p < length ss" | "p = length ss" by fastforce
    then show ?thesis
      using assms(1,2) by cases (simp_all add: labelled_def nth_append)
  qed
  have c: "2 \<le> p \<and> a = int p - 2 \<and> b = int p - 1"
    if p: "p < length (ss @ [x])" and c: "(ss @ [x]) ! p = Concat a b n" for p a b n
  proof -
    from p consider "p < length ss" | "p = length ss" by fastforce
    then show ?thesis
    proof cases
      case 1
      with c have "ss ! p = Concat a b n" by (simp add: nth_append)
      with 1 assms(1) show ?thesis unfolding labelled_def by blast
    next
      case 2
      with c have "x = Concat a b n" by simp
      from assms(3) [OF this] 2 show ?thesis by simp
    qed
  qed
  from d c show ?thesis unfolding labelled_def by blast
qed

lemma counted_segmentAndConcat:
  assumes "counted c" and "\<And>n. defined (seg n) = Seg n" and "\<And>n a b k. seg n \<noteq> Concat a b k"
  shows "counted (segmentAndConcat seg c)"
proof -
  from assms(1) have ne: "s c \<noteq> []" and k: "segmentCounter c = int (length (s c)) - 1"
    and l: "labelled (s c)" by (simp_all add: counted_def)
  from ne have pos: "Suc 0 \<le> length (s c)" by (cases "s c") simp_all
  have 1: "labelled (s c @ [seg (segmentCounter c + 1)])"
    using l assms(2,3) by (intro labelled_snoc) (simp_all add: k)
  have 2: "labelled ((s c @ [seg (segmentCounter c + 1)]) @
             [Concat (segmentCounter c) (segmentCounter c + 1) (segmentCounter c + 2)])"
  proof (rule labelled_snoc [OF 1])
    show "defined (Concat (segmentCounter c) (segmentCounter c + 1) (segmentCounter c + 2)) =
            Seg (int (length (s c @ [seg (segmentCounter c + 1)])))"
      by (simp add: k)
  next
    fix a b n
    assume "Concat (segmentCounter c) (segmentCounter c + 1) (segmentCounter c + 2) = Concat a b n"
    with pos show "2 \<le> length (s c @ [seg (segmentCounter c + 1)]) \<and>
          a = int (length (s c @ [seg (segmentCounter c + 1)])) - 2 \<and>
          b = int (length (s c @ [seg (segmentCounter c + 1)])) - 1"
      by (auto simp: k)
  qed
  then show ?thesis
    by (simp add: counted_def segmentAndConcat_eq k)
qed

lemma counted_compileAction:
  assumes "counted c" and "compileAction acts i c = Inr c'"
  shows "counted c'"
proof -
  have t: "counted (segmentAndConcat (Trim a b) d)" if "counted d" for a b d
    using that by (rule counted_segmentAndConcat) simp_all
  have m: "counted (segmentAndConcat (MuteTrim a b) d)" if "counted d" for a b d
    using that by (rule counted_segmentAndConcat) simp_all
  from assms show ?thesis
    by (auto simp: compileAction_def Let_def t m split: if_splits)
qed

lemma counter_compileAction:
  "compileAction acts i c = Inr c' \<Longrightarrow> segmentCounter c \<le> segmentCounter c'"
  by (auto simp: compileAction_def Let_def segmentAndConcat_eq split: if_splits)

lemma counted_compileActions:
  "counted c \<Longrightarrow> compileActions acts is c = Inr c' \<Longrightarrow> counted c'"
proof (induction "is" arbitrary: c)
  case Nil
  then show ?case by simp
next
  case (Cons i "is")
  from Cons.prems(2) obtain c1 where 1: "compileAction acts i c = Inr c1"
    and 2: "compileActions acts is c1 = Inr c'"
    by (auto split: sum.splits)
  from counted_compileAction [OF Cons.prems(1) 1] 2 show ?case by (rule Cons.IH)
qed

lemma compileActions_succeeds:
  assumes "\<forall>a\<in>set acts. verb a = CutVerb \<or> verb a = MuteVerb" and "\<forall>i\<in>set is. i < length acts"
  shows "\<exists>c'. compileActions acts is c = Inr c'"
  using assms(2)
proof (induction "is" arbitrary: c)
  case Nil
  then show ?case by simp
next
  case (Cons i "is")
  then have "i < length acts" by simp
  with assms(1) have "verb (acts ! i) = CutVerb \<or> verb (acts ! i) = MuteVerb" by simp
  then obtain c1 where "compileAction acts i c = Inr c1"
    by (auto simp: compileAction_def Let_def CutVerb_def MuteVerb_def)
  moreover from Cons obtain c' where "compileActions acts is c1 = Inr c'" by fastforce
  ultimately show ?case by simp
qed

lemma counted_beginning: "counted (beginning acts)"
  by (simp add: counted_def beginning_def labelled_def)

lemma digitVal_digit: "k < 10 \<Longrightarrow> digitVal (digit k) = Some k"
proof -
  assume "k < 10"
  then have "k = 0 \<or> k = 1 \<or> k = 2 \<or> k = 3 \<or> k = 4 \<or> k = 5 \<or> k = 6 \<or> k = 7 \<or> k = 8 \<or> k = 9"
    by arith
  then show ?thesis
    by (elim disjE) (simp_all add: digit_def digitVal_def)
qed

lemma digitsVal_snoc:
  "digitsVal acc (xs @ [c]) =
     (case digitsVal acc xs of
        None \<Rightarrow> None
      | Some v \<Rightarrow> (case digitVal c of None \<Rightarrow> None | Some d \<Rightarrow> Some (v * 10 + d)))"
  by (induction xs arbitrary: acc) (auto split: option.splits)

lemma digitsVal_dec: "digitsVal 0 (dec n) = Some n"
proof (induction n rule: dec.induct)
  case (1 n)
  show ?case
  proof (cases "n < 10")
    case True
    then show ?thesis by (subst dec.simps) (simp add: digitVal_digit)
  next
    case False
    have "n mod 10 < 10" by simp
    with False "1.IH" show ?thesis
      by (subst dec.simps) (simp add: digitsVal_snoc digitVal_digit)
  qed
qed

lemma dec_inj: "dec n = dec m \<Longrightarrow> n = m"
  by (metis digitsVal_dec option.inject)

lemma vidLabels_distinct:
  "distinct (map vidLabel (map (\<lambda>p. Seg (int p)) [0..<n] @ [Out]))"
  by (auto simp: distinct_map inj_on_def vidSegment_def itoa_def dest: dec_inj)

lemma audLabels_distinct:
  "distinct (map audLabel (map (\<lambda>p. Seg (int p)) [0..<n] @ [Out]))"
  by (auto simp: distinct_map inj_on_def audSegment_def itoa_def dest: dec_inj)

lemma labelled_map:
  "labelled ss \<Longrightarrow> map defined ss = map (\<lambda>p. Seg (int p)) [0..<length ss]"
  by (rule nth_equalityI) (simp_all add: labelled_def)

text \<open>
  C8. For a non-empty action list whose verbs are all cut or mute the compiler succeeds, and
  in its statements \<open>ss\<close>: the labels defined, in order, are 0, 1, 2, ... and last the
  terminal one, so every statement defines a label no earlier statement defined; a
  concatenation at position \<open>p\<close> defines the label \<open>p\<close> from the labels \<open>p - 2\<close> and \<open>p - 1\<close>,
  those of the two statements before it; the last statement is the final concatenation, of
  the labels of the two statements before it; the labels as printed (\<^verbatim>\<open>videoN\<close>,
  \<^verbatim>\<open>audioN\<close>, \<^verbatim>\<open>outv\<close>, \<^verbatim>\<open>outa\<close>) are pairwise distinct; and no iteration of the
  loop lowers the counter.
\<close>

theorem labels_fresh:
  assumes "acts \<noteq> []" and "\<forall>a\<in>set acts. verb a = CutVerb \<or> verb a = MuteVerb"
  shows "\<exists>ss. filterStatements acts = Inr ss \<and> 3 \<le> length ss \<and>
           map defined ss = map (\<lambda>p. Seg (int p)) [0..<length ss - 1] @ [Out] \<and>
           (\<forall>p<length ss. \<forall>a b n. ss ! p = Concat a b n \<longrightarrow>
              2 \<le> p \<and> a = int p - 2 \<and> b = int p - 1 \<and> n = int p) \<and>
           last ss = FinalConcat (int (length ss) - 3) (int (length ss) - 2) \<and>
           distinct (map (vidLabel \<circ> defined) ss) \<and> distinct (map (audLabel \<circ> defined) ss) \<and>
           (\<forall>i c c'. compileAction acts i c = Inr c' \<longrightarrow> segmentCounter c \<le> segmentCounter c')"
proof -
  from compileActions_succeeds [OF assms(2), of "[0..<length acts]" "beginning acts"]
  obtain cf where cf: "compileActions acts [0..<length acts] (beginning acts) = Inr cf"
    by auto
  from counted_compileActions [OF counted_beginning cf] have inv: "counted cf" .
  define xs where "xs = s cf"
  define t where "t = Tail (SecondString (endT (acts ! (length acts - 1)))) (int (length xs))"
  define ss where "ss = xs @ [t, FinalConcat (int (length xs) - 1) (int (length xs))]"
  from inv have ne: "xs \<noteq> []" and k: "segmentCounter cf = int (length xs) - 1"
    and l: "labelled xs" by (simp_all add: counted_def xs_def)
  from ne have pos: "Suc 0 \<le> length xs" by (cases xs) simp_all
  have f: "filterStatements acts = Inr ss"
    using assms(1) cf
    by (simp add: filterStatements_def ending_def incr_def emit_def Let_def ss_def t_def k
        xs_def [symmetric])
  have len: "length ss = length xs + 2" by (simp add: ss_def)
  have d: "map defined ss = map (\<lambda>p. Seg (int p)) [0..<length ss - 1] @ [Out]"
    by (simp add: len ss_def t_def labelled_map [OF l])
  have c: "2 \<le> p \<and> a = int p - 2 \<and> b = int p - 1 \<and> n = int p"
    if p: "p < length ss" and e: "ss ! p = Concat a b n" for p a b n
  proof -
    from p consider "p < length xs" | "p = length xs" | "p = Suc (length xs)"
      unfolding len by linarith
    then show ?thesis
    proof cases
      case 1
      with e have x: "xs ! p = Concat a b n" by (simp add: ss_def nth_append)
      from l 1 have "defined (xs ! p) = Seg (int p)" unfolding labelled_def by blast
      with x have "n = int p" by simp
      moreover from l 1 x have "2 \<le> p \<and> a = int p - 2 \<and> b = int p - 1"
        unfolding labelled_def by blast
      ultimately show ?thesis by simp
    next
      case 2
      with e show ?thesis by (simp add: ss_def t_def)
    next
      case 3
      with e show ?thesis by (simp add: ss_def nth_append)
    qed
  qed
  have la: "last ss = FinalConcat (int (length ss) - 3) (int (length ss) - 2)"
    by (simp add: ss_def)
  have v: "distinct (map (vidLabel \<circ> defined) ss)"
    using vidLabels_distinct [of "length ss - 1"] by (simp add: d map_map [symmetric] del: map_map)
  have a: "distinct (map (audLabel \<circ> defined) ss)"
    using audLabels_distinct [of "length ss - 1"] by (simp add: d map_map [symmetric] del: map_map)
  have l3: "3 \<le> length ss" using pos len by simp
  have c': "\<forall>p<length ss. \<forall>a b n. ss ! p = Concat a b n \<longrightarrow>
              2 \<le> p \<and> a = int p - 2 \<and> b = int p - 1 \<and> n = int p"
    using c by blast
  have m: "\<forall>i c c'. compileAction acts i c = Inr c' \<longrightarrow> segmentCounter c \<le> segmentCounter c'"
    using counter_compileAction by blast
  show ?thesis
    by (rule exI [of _ ss]) (intro conjI f l3 d c' la v a m)
qed

lemma compileAction_extends:
  "compileAction acts i c = Inr c' \<Longrightarrow> \<exists>rest. s c' = s c @ rest"
  by (auto simp: compileAction_def Let_def segmentAndConcat_eq split: if_splits)

lemma compileActions_extends:
  "compileActions acts is c = Inr c' \<Longrightarrow> \<exists>rest. s c' = s c @ rest"
proof (induction "is" arbitrary: c)
  case Nil
  then show ?case by simp
next
  case (Cons i "is")
  from Cons.prems obtain c1 where 1: "compileAction acts i c = Inr c1"
    and 2: "compileActions acts is c1 = Inr c'"
    by (auto split: sum.splits)
  from compileAction_extends [OF 1] Cons.IH [OF 2] show ?case by auto
qed

lemma filterStatements_prefix:
  assumes "filterStatements acts = Inr ss" and "n \<le> length acts"
  shows "\<exists>c rest. compileActions acts [0..<n] (beginning acts) = Inr c \<and> ss = s c @ rest"
proof -
  from assms(1) obtain cf where cf: "compileActions acts [0..<length acts] (beginning acts) = Inr cf"
    and ss: "ss = s (ending acts cf)"
    by (auto simp: filterStatements_def split: if_splits sum.splits)
  from assms(2) have "[0..<length acts] = [0..<n] @ [n..<length acts]"
    using upt_add_eq_append [of 0 n "length acts - n"] by simp
  with cf obtain c where c: "compileActions acts [0..<n] (beginning acts) = Inr c"
    and r: "compileActions acts [n..<length acts] c = Inr cf"
    by (auto simp: compileActions_append split: sum.splits)
  from compileActions_extends [OF r] obtain r1 where "s cf = s c @ r1" ..
  then have "ss = s c @ (r1 @ [Tail (SecondString (endT (acts ! (length acts - 1)))) (segmentCounter cf + 1),
       FinalConcat (segmentCounter cf) (segmentCounter cf + 1)])"
    by (simp add: ss ending_def incr_def emit_def Let_def)
  with c show ?thesis by blast
qed

text \<open>
  C3. When the compiler succeeds with the statements \<open>ss\<close> and action \<open>i\<close> is a mute, the
  loop reaches index \<open>i\<close> in a state \<open>c\<close>, and iteration \<open>i\<close> appends exactly two statements
  to it: one segment, whose video trim reads \<^verbatim>\<open>[0:v]\<close> and whose audio trim reads the
  silence input \<^verbatim>\<open>[1:a]\<close>, both from the action's start to its end, and one concatenation
  of the accumulated segment (the label of \<open>c\<close>) with the new one. The counter goes up by
  two. The two statements stand in \<open>ss\<close> right after the statements of \<open>c\<close>.
\<close>

theorem mute_contribution:
  assumes "filterStatements acts = Inr ss" and "i < length acts" and "verb (acts ! i) = MuteVerb"
  shows "(\<exists>c rest.
           compileActions acts [0..<i] (beginning acts) = Inr c \<and>
           compileActions acts [0..<Suc i] (beginning acts) =
             Inr \<lparr>s = s c @ [MuteTrim (SecondString (start (acts ! i))) (SecondString (endT (acts ! i)))
                               (segmentCounter c + 1),
                             Concat (segmentCounter c) (segmentCounter c + 1) (segmentCounter c + 2)],
                  segmentCounter = segmentCounter c + 2\<rparr> \<and>
           ss = s c @ [MuteTrim (SecondString (start (acts ! i))) (SecondString (endT (acts ! i)))
                         (segmentCounter c + 1),
                       Concat (segmentCounter c) (segmentCounter c + 1) (segmentCounter c + 2)] @ rest) \<and>
         render (MuteTrim a b n) =
           ''[0:v]trim=start='' @ a @ '':end='' @ b @ '',setpts=PTS-STARTPTS[video'' @ itoa n @
           ''];[1:a]atrim=start='' @ a @ '':end='' @ b @ '',asetpts=PTS-STARTPTS[audio'' @ itoa n @
           ''];''"
proof (rule conjI)
  show "render (MuteTrim a b n) =
           ''[0:v]trim=start='' @ a @ '':end='' @ b @ '',setpts=PTS-STARTPTS[video'' @ itoa n @
           ''];[1:a]atrim=start='' @ a @ '':end='' @ b @ '',asetpts=PTS-STARTPTS[audio'' @ itoa n @
           ''];''"
    by (simp add: vidSegment_def audSegment_def)
  from assms(2) have le: "Suc i \<le> length acts" by simp
  from filterStatements_prefix [OF assms(1) le] obtain c1 rest
    where c1: "compileActions acts [0..<Suc i] (beginning acts) = Inr c1" and ss: "ss = s c1 @ rest"
    by blast
  from c1 obtain c where c: "compileActions acts [0..<i] (beginning acts) = Inr c"
    and st: "compileAction acts i c = Inr c1"
    by (auto simp: compileActions_append split: sum.splits)
  from st assms(3) have "c1 = \<lparr>s = s c @ [MuteTrim (SecondString (start (acts ! i))) (SecondString (endT (acts ! i)))
                               (segmentCounter c + 1),
                             Concat (segmentCounter c) (segmentCounter c + 1) (segmentCounter c + 2)],
                  segmentCounter = segmentCounter c + 2\<rparr>"
    by (simp add: compileAction_def Let_def segmentAndConcat_eq MuteVerb_def CutVerb_def)
  with c c1 ss show "\<exists>c rest.
           compileActions acts [0..<i] (beginning acts) = Inr c \<and>
           compileActions acts [0..<Suc i] (beginning acts) =
             Inr \<lparr>s = s c @ [MuteTrim (SecondString (start (acts ! i))) (SecondString (endT (acts ! i)))
                               (segmentCounter c + 1),
                             Concat (segmentCounter c) (segmentCounter c + 1) (segmentCounter c + 2)],
                  segmentCounter = segmentCounter c + 2\<rparr> \<and>
           ss = s c @ [MuteTrim (SecondString (start (acts ! i))) (SecondString (endT (acts ! i)))
                         (segmentCounter c + 1),
                       Concat (segmentCounter c) (segmentCounter c + 1) (segmentCounter c + 2)] @ rest"
    by simp
qed

lemmas format_eval = SecondString_def fixed2_def roundEven_def dec.simps digit_def

lemmas compile_eval =
  filterStatements_def compileAction_def beginning_def ending_def incr_def emit_def
  segmentAndConcat_eq exampleAction_def CutVerb_def MuteVerb_def

text \<open>The single action \<^verbatim>\<open>mute 0:10-0:20\<close>.\<close>

theorem mute_contribution_witness:
  "filterStatements [exampleAction MuteVerb 1 10 20] =
     Inr [Head ''10.00'' 0, MuteTrim ''10.00'' ''20.00'' 1, Concat 0 1 2, Tail ''20.00'' 3,
          FinalConcat 2 3] \<and>
   (\<exists>rest. [Head ''10.00'' 0, MuteTrim ''10.00'' ''20.00'' 1, Concat 0 1 2, Tail ''20.00'' 3,
             FinalConcat 2 3] =
            s (beginning [exampleAction MuteVerb 1 10 20]) @
            [MuteTrim ''10.00'' ''20.00'' 1, Concat 0 1 2] @ rest)"
proof -
  let ?A = "[exampleAction MuteVerb 1 10 20]"
  let ?S = "[Head ''10.00'' 0, MuteTrim ''10.00'' ''20.00'' 1, Concat 0 1 2, Tail ''20.00'' 3,
          FinalConcat 2 3]"
  have t: "SecondString (start (?A ! 0)) = ''10.00''" "SecondString (endT (?A ! 0)) = ''20.00''"
    by (simp_all add: exampleAction_def time_eval format_eval)
  have f: "filterStatements ?A = Inr ?S"
    by (simp add: compile_eval time_eval format_eval)
  have v: "verb (?A ! 0) = MuteVerb" by (simp add: exampleAction_def)
  from mute_contribution [OF f _ v, THEN conjunct1] obtain c rest
    where "compileActions ?A [0..<0] (beginning ?A) = Inr c"
      and "?S = s c @ [MuteTrim (SecondString (start (?A ! 0))) (SecondString (endT (?A ! 0)))
                         (segmentCounter c + 1),
                       Concat (segmentCounter c) (segmentCounter c + 1) (segmentCounter c + 2)] @ rest"
    by auto
  then have "?S = s (beginning ?A) @ [MuteTrim ''10.00'' ''20.00'' 1, Concat 0 1 2] @ rest"
    unfolding t by (auto simp: beginning_def)
  with f show ?thesis by blast
qed

text \<open>
  C2, as the code has it. When actions \<open>i\<close> and \<open>i + 1\<close> are both cuts, iteration \<open>i\<close> appends
  no segment after the first cut (only, when \<open>i > 0\<close>, the segment before it), and iteration
  \<open>i + 1\<close> starts by appending the original-media segment from the first cut's end to the
  second cut's start and its concatenation: the interval between the two cuts is emitted, as
  the second cut's "before" segment, not as the first cut's "after" segment.
\<close>

theorem adjacent_cuts:
  assumes "filterStatements acts = Inr ss" and "Suc i < length acts"
    and "verb (acts ! i) = CutVerb" and "verb (acts ! Suc i) = CutVerb"
  shows "\<exists>c rest.
           compileActions acts [0..<i] (beginning acts) = Inr c \<and>
           compileActions acts [0..<Suc i] (beginning acts) =
             Inr (if 0 < i
                  then segmentAndConcat
                         (Trim (SecondString (endT (acts ! (i - 1)))) (SecondString (start (acts ! i)))) c
                  else c) \<and>
           (\<exists>c1. compileActions acts [0..<Suc i] (beginning acts) = Inr c1 \<and>
              ss = s c1 @
                   [Trim (SecondString (endT (acts ! i))) (SecondString (start (acts ! Suc i)))
                      (segmentCounter c1 + 1),
                    Concat (segmentCounter c1) (segmentCounter c1 + 1) (segmentCounter c1 + 2)] @ rest)"
proof -
  from assms(2) have le: "Suc (Suc i) \<le> length acts" by simp
  from filterStatements_prefix [OF assms(1) le] obtain c2 r2
    where c2: "compileActions acts [0..<Suc (Suc i)] (beginning acts) = Inr c2" and ss: "ss = s c2 @ r2"
    by blast
  from c2 obtain c1 where c1: "compileActions acts [0..<Suc i] (beginning acts) = Inr c1"
    and st1: "compileAction acts (Suc i) c1 = Inr c2"
    by (auto simp: compileActions_append split: sum.splits)
  from c1 obtain c where c: "compileActions acts [0..<i] (beginning acts) = Inr c"
    and st: "compileAction acts i c = Inr c1"
    by (auto simp: compileActions_append split: sum.splits)
  from st assms(3,4) have e1: "c1 = (if 0 < i
                  then segmentAndConcat
                         (Trim (SecondString (endT (acts ! (i - 1)))) (SecondString (start (acts ! i)))) c
                  else c)"
    by (simp add: compileAction_def Let_def)
  from st1 assms(4) obtain r where "s c2 = s c1 @
                   [Trim (SecondString (endT (acts ! i))) (SecondString (start (acts ! Suc i)))
                      (segmentCounter c1 + 1),
                    Concat (segmentCounter c1) (segmentCounter c1 + 1) (segmentCounter c1 + 2)] @ r"
    by (auto simp: compileAction_def Let_def segmentAndConcat_eq split: if_splits)
  with ss have "ss = s c1 @
                   [Trim (SecondString (endT (acts ! i))) (SecondString (start (acts ! Suc i)))
                      (segmentCounter c1 + 1),
                    Concat (segmentCounter c1) (segmentCounter c1 + 1) (segmentCounter c1 + 2)] @ (r @ r2)"
    by simp
  with c c1 e1 show ?thesis by blast
qed

text \<open>
  C2 as stated fails: \<^verbatim>\<open>cut 0:10-0:20\<close> followed by \<^verbatim>\<open>cut 0:25-0:30\<close> validates, and
  the compiler emits the trim of the original media from 20.00 to 25.00, the interval between
  the two cuts.
\<close>

theorem adjacent_cuts_segment_emitted:
  "validateSegmentTimes [exampleAction CutVerb 1 10 20, exampleAction CutVerb 2 25 30] = None \<and>
   filterStatements [exampleAction CutVerb 1 10 20, exampleAction CutVerb 2 25 30] =
     Inr [Head ''10.00'' 0, Trim ''20.00'' ''25.00'' 1, Concat 0 1 2, Tail ''30.00'' 3,
          FinalConcat 2 3] \<and>
   render (Trim ''20.00'' ''25.00'' 1) =
     ''[0:v]trim=start=20.00:end=25.00,setpts=PTS-STARTPTS[video1];[0:a]atrim=start=20.00:end=25.00,asetpts=PTS-STARTPTS[audio1];''"
proof (intro conjI)
  show "validateSegmentTimes [exampleAction CutVerb 1 10 20, exampleAction CutVerb 2 25 30] = None"
    by (simp add: validateSegmentTimes_def checkAction_def exampleAction_def time_eval)
  show "filterStatements [exampleAction CutVerb 1 10 20, exampleAction CutVerb 2 25 30] =
     Inr [Head ''10.00'' 0, Trim ''20.00'' ''25.00'' 1, Concat 0 1 2, Tail ''30.00'' 3,
          FinalConcat 2 3]"
    by (simp add: compile_eval time_eval format_eval)
  show "render (Trim ''20.00'' ''25.00'' 1) =
     ''[0:v]trim=start=20.00:end=25.00,setpts=PTS-STARTPTS[video1];[0:a]atrim=start=20.00:end=25.00,asetpts=PTS-STARTPTS[audio1];''"
    by (simp add: vidSegment_def audSegment_def itoa_def dec.simps digit_def)
qed

text \<open>
  The same two cuts: the first iteration leaves the state as it was, the second appends the
  segment between them.
\<close>

theorem adjacent_cuts_witness:
  "filterStatements [exampleAction CutVerb 1 10 20, exampleAction CutVerb 2 25 30] =
     Inr [Head ''10.00'' 0, Trim ''20.00'' ''25.00'' 1, Concat 0 1 2, Tail ''30.00'' 3,
          FinalConcat 2 3] \<and>
   compileActions [exampleAction CutVerb 1 10 20, exampleAction CutVerb 2 25 30] [0..<Suc 0]
       (beginning [exampleAction CutVerb 1 10 20, exampleAction CutVerb 2 25 30]) =
     Inr (beginning [exampleAction CutVerb 1 10 20, exampleAction CutVerb 2 25 30]) \<and>
   (\<exists>rest. [Head ''10.00'' 0, Trim ''20.00'' ''25.00'' 1, Concat 0 1 2, Tail ''30.00'' 3,
             FinalConcat 2 3] =
            s (beginning [exampleAction CutVerb 1 10 20, exampleAction CutVerb 2 25 30]) @
            [Trim ''20.00'' ''25.00'' 1, Concat 0 1 2] @ rest)"
proof -
  let ?A = "[exampleAction CutVerb 1 10 20, exampleAction CutVerb 2 25 30]"
  let ?S = "[Head ''10.00'' 0, Trim ''20.00'' ''25.00'' 1, Concat 0 1 2, Tail ''30.00'' 3,
          FinalConcat 2 3]"
  have t: "SecondString (endT (?A ! 0)) = ''20.00''" "SecondString (start (?A ! Suc 0)) = ''25.00''"
    by (simp_all add: exampleAction_def time_eval format_eval)
  have f: "filterStatements ?A = Inr ?S"
    by (simp add: compile_eval time_eval format_eval)
  have v: "verb (?A ! 0) = CutVerb" "verb (?A ! Suc 0) = CutVerb"
    by (simp_all add: exampleAction_def)
  from adjacent_cuts [OF f _ v] obtain c rest c1
    where "compileActions ?A [0..<0] (beginning ?A) = Inr c"
      and 1: "compileActions ?A [0..<Suc 0] (beginning ?A) = Inr (if 0 < (0::nat) then
           segmentAndConcat
             (Trim (SecondString (endT (?A ! (0 - 1)))) (SecondString (start (?A ! 0)))) c else c)"
      and "compileActions ?A [0..<Suc 0] (beginning ?A) = Inr c1"
      and "?S = s c1 @ [Trim (SecondString (endT (?A ! 0))) (SecondString (start (?A ! Suc 0)))
                         (segmentCounter c1 + 1),
                       Concat (segmentCounter c1) (segmentCounter c1 + 1) (segmentCounter c1 + 2)] @ rest"
    by auto
  then have "compileActions ?A [0..<Suc 0] (beginning ?A) = Inr (beginning ?A)"
    and "?S = s (beginning ?A) @ [Trim ''20.00'' ''25.00'' 1, Concat 0 1 2] @ rest"
    unfolding t by (auto simp: beginning_def)
  with f show ?thesis by blast
qed

text \<open>The list \<^verbatim>\<open>cut 0:10-0:20\<close>, \<^verbatim>\<open>mute 0:25-0:30\<close>.\<close>

theorem labels_fresh_witness:
  "filterStatements [exampleAction CutVerb 1 10 20, exampleAction MuteVerb 2 25 30] =
     Inr [Head ''10.00'' 0, Trim ''20.00'' ''25.00'' 1, Concat 0 1 2,
          MuteTrim ''25.00'' ''30.00'' 3, Concat 2 3 4, Tail ''30.00'' 5, FinalConcat 4 5] \<and>
   distinct (map (vidLabel \<circ> defined)
     [Head ''10.00'' 0, Trim ''20.00'' ''25.00'' 1, Concat 0 1 2,
      MuteTrim ''25.00'' ''30.00'' 3, Concat 2 3 4, Tail ''30.00'' 5, FinalConcat 4 5]) \<and>
   map defined
     [Head ''10.00'' 0, Trim ''20.00'' ''25.00'' 1, Concat 0 1 2,
      MuteTrim ''25.00'' ''30.00'' 3, Concat 2 3 4, Tail ''30.00'' 5, FinalConcat 4 5] =
     [Seg 0, Seg 1, Seg 2, Seg 3, Seg 4, Seg 5, Out]"
proof -
  let ?A = "[exampleAction CutVerb 1 10 20, exampleAction MuteVerb 2 25 30]"
  let ?S = "[Head ''10.00'' 0, Trim ''20.00'' ''25.00'' 1, Concat 0 1 2,
          MuteTrim ''25.00'' ''30.00'' 3, Concat 2 3 4, Tail ''30.00'' 5, FinalConcat 4 5]"
  have f: "filterStatements ?A = Inr ?S"
    by (simp add: compile_eval time_eval format_eval)
  have "\<forall>a\<in>set ?A. verb a = CutVerb \<or> verb a = MuteVerb"
    by (simp add: exampleAction_def)
  from labels_fresh [OF _ this] obtain ss where "filterStatements ?A = Inr ss"
    and "distinct (map (vidLabel \<circ> defined) ss)"
    by blast
  with f have "distinct (map (vidLabel \<circ> defined) ?S)" by simp
  with f show ?thesis by simp
qed

end
